theory Spec2Isabelle
  imports Complex_Main "HOL-Library.Word" "HOL-Library.Log_Nat"
begin

unbundle bit_operations_syntax

section \<open>Data model\<close>

text \<open>
  The source is \<^verbatim>\<open>src/triangle_rasterizer.cpp\<close>. A \<^verbatim>\<open>Vertex\<close> is a struct of two
  \<^verbatim>\<open>int\<close> coordinates and a packed \<^verbatim>\<open>Uint32\<close> colour (0xRRGGBBAA). The fields are
  called \<open>vx\<close>, \<open>vy\<close>, \<open>vcolor\<close> here (the source has \<^verbatim>\<open>x\<close>, \<^verbatim>\<open>y\<close>, \<^verbatim>\<open>color\<close>, which
  are wanted as variable names below).
\<close>

type_synonym color = "32 word"

record Vertex =
  vx :: int
  vy :: int
  vcolor :: color

text \<open>
  Of \<^verbatim>\<open>struct Screen\<close> the rasterizer uses \<^verbatim>\<open>width\<close>, \<^verbatim>\<open>height\<close> and the array
  \<^verbatim>\<open>pixels\<close>; the three SDL handles are only passed to SDL and are left out. The array
  is a list, row-major, entry \<open>y * width + x\<close> holding pixel \<open>(x, y)\<close>.
\<close>

record Screen =
  width :: int
  height :: int
  pixels :: "color list"

definition RED :: color where "RED = 0xFF0000FF"
definition GREEN :: color where "GREEN = 0x00FF00FF"
definition BLUE :: color where "BLUE = 0x0000FFFF"

text \<open>
  \<^verbatim>\<open>drawScreen\<close>, lines 128 to 151: the buffer of \<open>width * height\<close> entries, every entry
  opaque black. (Window, renderer and texture creation are SDL calls.)
\<close>

definition drawScreen :: "int \<Rightarrow> int \<Rightarrow> Screen" where
  "drawScreen w h = \<lparr>width = w, height = h, pixels = replicate (nat (w * h)) 0x000000FF\<rparr>"

text \<open>Reading pixel \<open>(x, y)\<close> of the buffer, as the comment at lines 130 to 136 describes it.\<close>

definition getPixel :: "Screen \<Rightarrow> int \<Rightarrow> int \<Rightarrow> color" where
  "getPixel screen x y = pixels screen ! nat (y * width screen + x)"

section \<open>32-bit integers\<close>

text \<open>
  An \<^verbatim>\<open>int\<close> of the source is an integer in the 32-bit range (\<open>int32\<close>). The result of
  every \<^verbatim>\<open>int\<close> operation that can leave this range is reduced by \<open>wrap32\<close>, the value
  two's-complement hardware produces (C++ leaves the overflow undefined). A loop whose
  counter wraps around may never exit; the loops below are partial functions, and
  \<open>None\<close> is a run that does not return.
\<close>

definition wrap32 :: "int \<Rightarrow> int" where
  "wrap32 z = (z + 2147483648) mod 4294967296 - 2147483648"

definition int32 :: "int \<Rightarrow> bool" where
  "int32 z \<longleftrightarrow> - 2147483648 \<le> z \<and> z \<le> 2147483647"

section \<open>setPixel\<close>

text \<open>
  Lines 176 to 182. For \<open>x\<close> and \<open>y\<close> that pass the bounds test the index
  \<open>y * width + x\<close> is below \<open>width * height\<close>, the size that \<^verbatim>\<open>drawScreen\<close> computed in
  an \<^verbatim>\<open>int\<close>, so it does not wrap.
\<close>

definition setPixel :: "Screen \<Rightarrow> int \<Rightarrow> int \<Rightarrow> color \<Rightarrow> Screen" where
  "setPixel screen x y c =
     (if x < 0 \<or> x \<ge> width screen \<or> y < 0 \<or> y \<ge> height screen then screen
      else let index = y * width screen + x
           in screen\<lparr>pixels := (pixels screen)[nat index := c]\<rparr>)"

section \<open>Single-precision arithmetic\<close>

text \<open>
  A \<^verbatim>\<open>float\<close> is modelled by its value, a rational number. Every operation computes the
  exact result and rounds it to the nearest number with a 24-bit significand, ties to
  even (IEEE 754 binary32, the default rounding mode, each operation rounded on its
  own). The exponent range is not modelled: with 32-bit integer inputs no value of this
  program is large or small enough to reach it. Signed zeros, infinities and NaN do not
  arise, as every division of the program is guarded against a zero divisor.
\<close>

type_synonym float32 = rat

definition ilog2 :: "rat \<Rightarrow> int" where
  \<comment> \<open>for \<open>0 < a\<close>: the \<open>e\<close> with \<open>2 ^ e \<le> a < 2 ^ (e + 1)\<close>\<close>
  "ilog2 a = (if 1 \<le> a then bitlen \<lfloor>a\<rfloor> - 1 else - bitlen (\<lceil>1 / a\<rceil> - 1))"

definition round_half_even :: "rat \<Rightarrow> int" where
  "round_half_even q =
     (let f = \<lfloor>q\<rfloor>; r = q - of_int f
      in if r < 1 / 2 then f else if 1 / 2 < r then f + 1 else if even f then f else f + 1)"

definition round32 :: "rat \<Rightarrow> float32" where
  "round32 a =
     (if a = 0 then 0
      else let e = ilog2 \<bar>a\<bar>; u = 2 powi (e - 23)
           in sgn a * of_int (round_half_even (\<bar>a\<bar> / u)) * u)"

definition i2f :: "int \<Rightarrow> float32" where
  \<comment> \<open>the conversion \<^verbatim>\<open>(float)n\<close>, also the implicit one of an \<^verbatim>\<open>int\<close> operand\<close>
  "i2f n = round32 (of_int n)"

definition fadd :: "float32 \<Rightarrow> float32 \<Rightarrow> float32" where
  "fadd a b = round32 (a + b)"

definition fmul :: "float32 \<Rightarrow> float32 \<Rightarrow> float32" where
  "fmul a b = round32 (a * b)"

definition fdiv :: "float32 \<Rightarrow> float32 \<Rightarrow> float32" where
  "fdiv a b = round32 (a / b)"

definition f2i :: "float32 \<Rightarrow> int" where
  \<comment> \<open>the conversion \<^verbatim>\<open>(int)a\<close>: the fractional part is discarded; a value outside the
      32-bit range (undefined in C++) gives \<open>INT_MIN\<close>, as the x86-64 conversion does\<close>
  "f2i a =
     (let n = (if 0 \<le> a then \<lfloor>a\<rfloor> else \<lceil>a\<rceil>)
      in if int32 n then n else - 2147483648)"

definition f2u8 :: "float32 \<Rightarrow> 8 word" where
  \<comment> \<open>the conversion \<^verbatim>\<open>(uint8_t)a\<close>; outside 0..255 (undefined in C++) the low byte of
      the \<^verbatim>\<open>int\<close> conversion\<close>
  "f2u8 a = word_of_int (f2i a)"

section \<open>interpolateColor\<close>

text \<open>
  Lines 188 to 211. The channels are \<^verbatim>\<open>uint8_t\<close>; in \<^verbatim>\<open>r1 + (r2 - r1) * t\<close> they are
  promoted to \<^verbatim>\<open>int\<close>, the difference is converted to \<^verbatim>\<open>float\<close> for the product, and so
  is \<^verbatim>\<open>r1\<close> for the sum.
\<close>

definition channel :: "8 word \<Rightarrow> 8 word \<Rightarrow> float32 \<Rightarrow> 8 word" where
  "channel c1 c2 t = f2u8 (fadd (i2f (uint c1)) (fmul (i2f (uint c2 - uint c1)) t))"

definition interpolateColor :: "color \<Rightarrow> color \<Rightarrow> float32 \<Rightarrow> color" where
  "interpolateColor color0 color1 t =
     (let r1 = ucast (drop_bit 24 color0 AND 0xFF) :: 8 word;
          g1 = ucast (drop_bit 16 color0 AND 0xFF) :: 8 word;
          b1 = ucast (drop_bit 8 color0 AND 0xFF) :: 8 word;
          a1 = ucast (color0 AND 0xFF) :: 8 word;
          r2 = ucast (drop_bit 24 color1 AND 0xFF) :: 8 word;
          g2 = ucast (drop_bit 16 color1 AND 0xFF) :: 8 word;
          b2 = ucast (drop_bit 8 color1 AND 0xFF) :: 8 word;
          a2 = ucast (color1 AND 0xFF) :: 8 word;
          r = channel r1 r2 t;
          g = channel g1 g2 t;
          b = channel b1 b2 t;
          a = channel a1 a2 t
      in push_bit 24 (ucast r) OR push_bit 16 (ucast g) OR push_bit 8 (ucast b) OR ucast a)"

section \<open>isCollinear\<close>

text \<open>
  Lines 404 to 409. \<^verbatim>\<open>area\<close> is an \<^verbatim>\<open>int\<close>: the differences, the products and their
  difference are computed in 32 bits. Here the 32-bit values are words, where \<open>-\<close> and
  \<open>*\<close> wrap around as two's-complement hardware does.
\<close>

definition isCollinear :: "Vertex \<Rightarrow> Vertex \<Rightarrow> Vertex \<Rightarrow> bool" where
  "isCollinear v0 v1 v2 =
     (let x0 = word_of_int (vx v0) :: 32 word; y0 = word_of_int (vy v0) :: 32 word;
          x1 = word_of_int (vx v1) :: 32 word; y1 = word_of_int (vy v1) :: 32 word;
          x2 = word_of_int (vx v2) :: 32 word; y2 = word_of_int (vy v2) :: 32 word;
          area = (x1 - x0) * (y2 - y0) - (x2 - x0) * (y1 - y0)
      in area = 0)"

text \<open>The signed area of the claim, in exact integer arithmetic.\<close>

definition signedArea :: "Vertex \<Rightarrow> Vertex \<Rightarrow> Vertex \<Rightarrow> int" where
  "signedArea v0 v1 v2 = (vx v1 - vx v0) * (vy v2 - vy v0) - (vx v2 - vx v0) * (vy v1 - vy v0)"

section \<open>The line rasterizer\<close>



text \<open>\<^verbatim>\<open>bresenhamHigh\<close>, lines 260 to 298, in the same way.\<close>

partial_function (option) bresenhamHighLoop ::
  "int \<Rightarrow> int \<Rightarrow> int \<Rightarrow> int \<Rightarrow> color \<Rightarrow> color \<Rightarrow> int \<Rightarrow> Vertex list \<Rightarrow> int \<Rightarrow> int \<Rightarrow> int \<Rightarrow> int
     \<Rightarrow> Vertex list option"
where
  "bresenhamHighLoop y1 xi dx dy color0 color1 totalSteps pts y' x' D currentStep =
     (if y' \<le> y1 then
        let t = (if totalSteps > 0 then fdiv (i2f currentStep) (i2f totalSteps) else 0);
            c = interpolateColor color0 color1 t;
            v = \<lparr>vx = x', vy = y', vcolor = c\<rparr>
        in if D > 0
           then bresenhamHighLoop y1 xi dx dy color0 color1 totalSteps (pts @ [v])
                  (wrap32 (y' + 1)) (wrap32 (x' + xi))
                  (wrap32 (D + wrap32 (2 * wrap32 (dx - dy)))) (wrap32 (currentStep + 1))
           else bresenhamHighLoop y1 xi dx dy color0 color1 totalSteps (pts @ [v])
                  (wrap32 (y' + 1)) x'
                  (wrap32 (D + wrap32 (2 * dx))) (wrap32 (currentStep + 1))
      else Some pts)"




section \<open>fillTriangle\<close>

text \<open>Lines 341 to 343: the three conditional swaps that order the vertices by \<open>y\<close>.\<close>

definition sortByY :: "Vertex \<Rightarrow> Vertex \<Rightarrow> Vertex \<Rightarrow> Vertex \<times> Vertex \<times> Vertex" where
  "sortByY a b c =
     (let (v0, v1) = (if vy a > vy b then (b, a) else (a, b));
          (v0, v2) = (if vy v0 > vy c then (c, v0) else (v0, c));
          (v1, v2) = (if vy v1 > vy v2 then (v2, v1) else (v1, v2))
      in (v0, v1, v2))"

text \<open>
  Lines 351 to 388, the first part of the body of the scanline loop: \<open>None\<close> when the
  row is skipped by one of the two \<^verbatim>\<open>continue\<close> statements, otherwise \<open>x_left\<close>,
  \<open>x_right\<close>, \<open>color_left\<close> and \<open>color_right\<close> of the row. The differences are \<^verbatim>\<open>int\<close>
  subtractions, converted to \<^verbatim>\<open>float\<close> afterwards. \<^verbatim>\<open>std::min\<close> and \<^verbatim>\<open>std::max\<close> are
  \<open>min\<close> and \<open>max\<close> on the values.
\<close>

definition scanlineEdges ::
  "Vertex \<Rightarrow> Vertex \<Rightarrow> Vertex \<Rightarrow> int \<Rightarrow> (int \<times> int \<times> color \<times> color) option"
where
  "scanlineEdges v0 v1 v2 y =
     (let topHalf = y < vy v1
      in if (if topHalf then vy v1 = vy v0 else vy v2 = vy v1) then None
         else
           let v_start = (if topHalf then v0 else v1);
               v_end = (if topHalf then v1 else v2);
               y_start = vy v_start;
               y_end = vy v_end;
               t_long = fdiv (i2f (wrap32 (y - vy v0))) (i2f (wrap32 (vy v2 - vy v0)));
               x_long = fadd (i2f (vx v0)) (fmul (i2f (wrap32 (vx v2 - vx v0))) t_long);
               t_short = fdiv (i2f (wrap32 (y - y_start))) (i2f (wrap32 (y_end - y_start)));
               x_short = fadd (i2f (vx v_start))
                           (fmul (i2f (wrap32 (vx v_end - vx v_start))) t_short);
               color_long = interpolateColor (vcolor v0) (vcolor v2) t_long;
               color_short = interpolateColor (vcolor v_start) (vcolor v_end) t_short;
               x_left = f2i (min x_long x_short);
               x_right = f2i (max x_long x_short);
               color_left = (if x_long < x_short then color_long else color_short);
               color_right = (if x_long < x_short then color_short else color_long)
           in Some (x_left, x_right, color_left, color_right))"

text \<open>Lines 392 to 398: the colour that the span loop passes to \<^verbatim>\<open>setPixel\<close> at \<open>x\<close>.\<close>

definition spanColor :: "int \<Rightarrow> int \<Rightarrow> color \<Rightarrow> color \<Rightarrow> int \<Rightarrow> color" where
  "spanColor x_left x_right color_left color_right x =
     (if x_right = x_left then color_left
      else let t_span = fdiv (i2f (wrap32 (x - x_left))) (i2f (wrap32 (x_right - x_left)))
           in interpolateColor color_left color_right t_span)"

text \<open>
  Lines 391 to 399: the span loop, threading the screen through the \<^verbatim>\<open>setPixel\<close> calls;
  \<open>x'\<close> is the loop variable \<^verbatim>\<open>x\<close>.
\<close>

partial_function (option) fillSpan ::
  "Screen \<Rightarrow> int \<Rightarrow> int \<Rightarrow> int \<Rightarrow> color \<Rightarrow> color \<Rightarrow> int \<Rightarrow> Screen option"
where
  "fillSpan screen y x_left x_right color_left color_right x' =
     (if x' \<le> x_right
      then fillSpan (setPixel screen x' y (spanColor x_left x_right color_left color_right x'))
             y x_left x_right color_left color_right (wrap32 (x' + 1))
      else Some screen)"

text \<open>
  The body of the scanline loop for row \<open>y\<close>, and the scanline loop, lines 349 to 400.
  When \<open>v2.y\<close> is \<^verbatim>\<open>INT_MAX\<close> the test \<open>y \<le> v2.y\<close> never fails.
\<close>

definition scanline :: "Screen \<Rightarrow> Vertex \<Rightarrow> Vertex \<Rightarrow> Vertex \<Rightarrow> int \<Rightarrow> Screen option" where
  "scanline screen v0 v1 v2 y =
     (case scanlineEdges v0 v1 v2 y of
        None \<Rightarrow> Some screen
      | Some (x_left, x_right, color_left, color_right) \<Rightarrow>
          fillSpan screen y x_left x_right color_left color_right x_left)"

partial_function (option) fillRows ::
  "Screen \<Rightarrow> Vertex \<Rightarrow> Vertex \<Rightarrow> Vertex \<Rightarrow> int \<Rightarrow> Screen option"
where
  "fillRows screen v0 v1 v2 y =
     (if y \<le> vy v2
      then Option.bind (scanline screen v0 v1 v2 y)
             (\<lambda>screen'. fillRows screen' v0 v1 v2 (wrap32 (y + 1)))
      else Some screen)"

text \<open>\<^verbatim>\<open>fillTriangle\<close>, lines 338 to 401.\<close>

definition fillTriangle :: "Screen \<Rightarrow> Vertex \<Rightarrow> Vertex \<Rightarrow> Vertex \<Rightarrow> Screen option" where
  "fillTriangle screen a b c =
     (let (v0, v1, v2) = sortByY a b c
      in if vy v0 = vy v2 then Some screen else fillRows screen v0 v1 v2 (vy v0))"

subsection \<open>The setPixel calls of a fill\<close>

text \<open>
  The same loops, returning the \<^verbatim>\<open>setPixel\<close> calls they issue, in order, instead of
  performing them: a call \<^verbatim>\<open>setPixel(screen, x, y, color)\<close> is the triple
  \<open>(x, y, color)\<close>. No loop of \<^verbatim>\<open>fillTriangle\<close> reads the screen, so the calls do not
  depend on it; \<open>fillTriangle_applyCalls\<close> below shows that \<open>fillTriangle\<close> returns
  exactly when the calls are finitely many, with the screen on which they have been
  performed.
\<close>

type_synonym call = "int \<times> int \<times> color"

fun applyCalls :: "Screen \<Rightarrow> call list \<Rightarrow> Screen" where
  "applyCalls screen [] = screen"
| "applyCalls screen ((x, y, c) # calls) = applyCalls (setPixel screen x y c) calls"

partial_function (option) spanCalls ::
  "int \<Rightarrow> int \<Rightarrow> int \<Rightarrow> color \<Rightarrow> color \<Rightarrow> int \<Rightarrow> call list option"
where
  "spanCalls y x_left x_right color_left color_right x' =
     (if x' \<le> x_right
      then Option.bind (spanCalls y x_left x_right color_left color_right (wrap32 (x' + 1)))
             (\<lambda>rest. Some ((x', y, spanColor x_left x_right color_left color_right x') # rest))
      else Some [])"

definition scanlineCalls :: "Vertex \<Rightarrow> Vertex \<Rightarrow> Vertex \<Rightarrow> int \<Rightarrow> call list option" where
  "scanlineCalls v0 v1 v2 y =
     (case scanlineEdges v0 v1 v2 y of
        None \<Rightarrow> Some []
      | Some (x_left, x_right, color_left, color_right) \<Rightarrow>
          spanCalls y x_left x_right color_left color_right x_left)"

partial_function (option) rowsCalls ::
  "Vertex \<Rightarrow> Vertex \<Rightarrow> Vertex \<Rightarrow> int \<Rightarrow> call list option"
where
  "rowsCalls v0 v1 v2 y =
     (if y \<le> vy v2
      then Option.bind (scanlineCalls v0 v1 v2 y)
             (\<lambda>row. Option.bind (rowsCalls v0 v1 v2 (wrap32 (y + 1)))
                (\<lambda>rest. Some (row @ rest)))
      else Some [])"

definition fillTriangleCalls :: "Vertex \<Rightarrow> Vertex \<Rightarrow> Vertex \<Rightarrow> call list option" where
  "fillTriangleCalls a b c =
     (let (v0, v1, v2) = sortByY a b c
      in if vy v0 = vy v2 then Some [] else rowsCalls v0 v1 v2 (vy v0))"

text \<open>
  The calls of the scanline \<open>y\<close>, written out: one call for each \<open>x\<close> from \<open>x_left\<close> to
  \<open>x_right\<close>. (\<open>scanlineCalls_rowCalls\<close> below shows that \<open>scanlineCalls\<close> returns this
  list.)
\<close>

definition rowCalls :: "Vertex \<Rightarrow> Vertex \<Rightarrow> Vertex \<Rightarrow> int \<Rightarrow> call list" where
  "rowCalls v0 v1 v2 y =
     (case scanlineEdges v0 v1 v2 y of
        None \<Rightarrow> []
      | Some (x_left, x_right, color_left, color_right) \<Rightarrow>
          map (\<lambda>x. (x, y, spanColor x_left x_right color_left color_right x))
            [x_left..x_right])"

text \<open>What a sequence of calls does to one entry of the buffer.\<close>

fun overlay :: "int \<Rightarrow> int \<Rightarrow> call list \<Rightarrow> nat \<Rightarrow> color \<Rightarrow> color" where
  "overlay w h [] i v = v"
| "overlay w h ((x, y, c) # calls) i v =
     overlay w h calls i
       (if \<not> (x < 0 \<or> x \<ge> w \<or> y < 0 \<or> y \<ge> h) \<and> nat (y * w + x) = i then c else v)"

section \<open>The caller\<close>

text \<open>
  \<^verbatim>\<open>main\<close>, custom mode. Lines 476 to 483: a triangle read from the input is appended
  to \<^verbatim>\<open>triangles\<close> unless \<^verbatim>\<open>isCollinear\<close> holds of its three vertices (then the user is
  asked again). Lines 487 to 489: every stored triangle is filled, in order.
\<close>

definition submitTriangle :: "Vertex list list \<Rightarrow> Vertex list \<Rightarrow> Vertex list list" where
  "submitTriangle triangles triangle =
     (if isCollinear (triangle ! 0) (triangle ! 1) (triangle ! 2) then triangles
      else triangles @ [triangle])"

fun drawAll :: "Screen \<Rightarrow> Vertex list list \<Rightarrow> Screen option" where
  "drawAll screen [] = Some screen"
| "drawAll screen (triangle # rest) =
     Option.bind (fillTriangle screen (triangle ! 0) (triangle ! 1) (triangle ! 2))
       (\<lambda>screen'. drawAll screen' rest)"

section \<open>The default triangle\<close>

text \<open>
  The first triangle of \<^verbatim>\<open>main\<close>, lines 495 to 497 (\<^verbatim>\<open>v0\<close>, \<^verbatim>\<open>v1\<close>, \<^verbatim>\<open>v2\<close> there), which
  line 504 fills on the fresh 500 by 500 screen of line 413.
\<close>

definition defaultV0 :: Vertex where "defaultV0 = \<lparr>vx = 250, vy = 100, vcolor = RED\<rparr>"
definition defaultV1 :: Vertex where "defaultV1 = \<lparr>vx = 100, vy = 400, vcolor = GREEN\<rparr>"
definition defaultV2 :: Vertex where "defaultV2 = \<lparr>vx = 400, vy = 400, vcolor = BLUE\<rparr>"

text \<open>
  Channel \<open>k\<close> of a packed colour (3 red, 2 green, 1 blue, 0 alpha), and the test that
  every channel of a colour lies between the smallest and the largest value of that
  channel among three colours.
\<close>

definition chan :: "nat \<Rightarrow> color \<Rightarrow> color" where
  "chan k c = drop_bit (8 * k) c AND 0xFF"

definition withinColors :: "color \<Rightarrow> color \<Rightarrow> color \<Rightarrow> color \<Rightarrow> bool" where
  "withinColors c0 c1 c2 c =
     list_all (\<lambda>k. min (chan k c0) (min (chan k c1) (chan k c2)) \<le> chan k c
                  \<and> chan k c \<le> max (chan k c0) (max (chan k c1) (chan k c2)))
       [0, 1, 2, 3]"

text \<open>Pixel \<open>(x, y)\<close> of the screen that a run returns.\<close>

definition pixelAfter :: "Screen option \<Rightarrow> int \<Rightarrow> int \<Rightarrow> color option" where
  "pixelAfter run x y = map_option (\<lambda>screen. getPixel screen x y) run"

section \<open>A triangle with a vertex at \<^verbatim>\<open>INT_MAX\<close>\<close>


section \<open>Properties of setPixel\<close>

lemma setPixel_width [simp]: "width (setPixel screen x y c) = width screen"
  by (simp add: setPixel_def Let_def)

lemma setPixel_height [simp]: "height (setPixel screen x y c) = height screen"
  by (simp add: setPixel_def Let_def)

lemma setPixel_length [simp]: "length (pixels (setPixel screen x y c)) = length (pixels screen)"
  by (simp add: setPixel_def Let_def)

lemma index_less:
  assumes "0 \<le> x" "x < w" "0 \<le> y" "y < h"
  shows "nat (y * w + x) < nat (w * h)"
proof -
  have "y + 1 \<le> h" using assms by simp
  then have "(y + 1) * w \<le> h * w"
    using assms by (intro mult_right_mono) auto
  then have "y * w + x < w * h"
    using assms by (simp add: algebra_simps)
  moreover have "0 \<le> y * w + x" using assms by simp
  ultimately show ?thesis by linarith
qed

text \<open>
  C4. Outside \<open>[0, width) \<times> [0, height)\<close> \<open>setPixel\<close> returns the screen it was given.
  Inside, on a buffer of \<open>width * height\<close> entries, the entry at index \<open>y * width + x\<close>
  becomes the given colour, every other entry keeps its value, and the dimensions and
  the length of the buffer stay as they were.
\<close>

theorem setPixel_bounds_and_frame:
  assumes "length (pixels screen) = nat (width screen * height screen)"
  shows "(x < 0 \<or> x \<ge> width screen \<or> y < 0 \<or> y \<ge> height screen
            \<longrightarrow> setPixel screen x y c = screen)
       \<and> (0 \<le> x \<and> x < width screen \<and> 0 \<le> y \<and> y < height screen
            \<longrightarrow> nat (y * width screen + x) < length (pixels screen)
              \<and> pixels (setPixel screen x y c) ! nat (y * width screen + x) = c
              \<and> (\<forall>i. i \<noteq> nat (y * width screen + x)
                    \<longrightarrow> pixels (setPixel screen x y c) ! i = pixels screen ! i)
              \<and> length (pixels (setPixel screen x y c)) = length (pixels screen)
              \<and> width (setPixel screen x y c) = width screen
              \<and> height (setPixel screen x y c) = height screen)"
proof (intro conjI impI)
  assume "x < 0 \<or> x \<ge> width screen \<or> y < 0 \<or> y \<ge> height screen"
  then show "setPixel screen x y c = screen"
    by (simp add: setPixel_def)
next
  assume inside: "0 \<le> x \<and> x < width screen \<and> 0 \<le> y \<and> y < height screen"
  then show idx: "nat (y * width screen + x) < length (pixels screen)"
    using assms index_less [of x "width screen" y "height screen"] by simp
  from inside have upd: "pixels (setPixel screen x y c)
      = (pixels screen)[nat (y * width screen + x) := c]"
    by (simp add: setPixel_def Let_def)
  show "pixels (setPixel screen x y c) ! nat (y * width screen + x) = c"
    using idx by (simp add: upd)
  show "\<forall>i. i \<noteq> nat (y * width screen + x)
          \<longrightarrow> pixels (setPixel screen x y c) ! i = pixels screen ! i"
    by (simp add: upd)
qed simp_all

theorem setPixel_bounds_and_frame_witness:
  "setPixel (drawScreen 2 2) 2 0 RED = drawScreen 2 2
   \<and> setPixel (drawScreen 2 2) 0 (- 1) RED = drawScreen 2 2
   \<and> pixels (setPixel (drawScreen 2 2) 1 1 RED) ! 3 = RED
   \<and> pixels (setPixel (drawScreen 2 2) 1 1 RED) ! 2 = pixels (drawScreen 2 2) ! 2"
proof -
  have len: "length (pixels (drawScreen 2 2)) = nat (width (drawScreen 2 2) * height (drawScreen 2 2))"
    by (simp add: drawScreen_def)
  have three: "nat (1 * width (drawScreen 2 2) + 1) = 3"
    by (simp add: drawScreen_def)
  show ?thesis
    using setPixel_bounds_and_frame [OF len, of 2 0 RED]
      setPixel_bounds_and_frame [OF len, of 0 "- 1" RED]
      setPixel_bounds_and_frame [OF len, of 1 1 RED]
    by (simp add: three) (simp add: drawScreen_def)
qed

section \<open>Properties of the single-precision model\<close>

text \<open>Some values, as a check of the rounding: \<open>1 / 3\<close>, \<open>1 / 10\<close>, and ties.\<close>

lemma round32_examples:
  "round32 (1 / 3) = 11184811 / 33554432"
  "round32 (1 / 10) = 13421773 / 134217728"
  "round32 16777217 = 16777216"
  "round32 16777219 = 16777220"
  "round32 (- 16777219) = - 16777220"
  by code_simp+

text \<open>
  \<open>ilog2\<close> finds the binary exponent, and rounding leaves every integer of magnitude
  below \<open>2 ^ 24\<close> as it is: such an integer has a 24-bit significand.
\<close>

lemma powi_neg: "0 \<le> k \<Longrightarrow> (2::rat) powi (- k) = 1 / 2 ^ nat k"
  by (simp add: power_int_minus power_int_def [of _ k] inverse_eq_divide)

lemma round32_zero [simp]: "round32 0 = 0"
  by (simp add: round32_def)

lemma ilog2_lower:
  assumes "0 < a"
  shows "2 powi (ilog2 a) \<le> a"
proof (cases "1 \<le> a")
  case True
  then have pos: "0 < \<lfloor>a\<rfloor>" by simp
  then have b1: "1 \<le> bitlen \<lfloor>a\<rfloor>" by (auto simp: bitlen_alt_def)
  have "(2::int) ^ nat (bitlen \<lfloor>a\<rfloor> - 1) \<le> \<lfloor>a\<rfloor>"
    using bitlen_bounds [OF pos] by simp
  then have "rat_of_int (2 ^ nat (bitlen \<lfloor>a\<rfloor> - 1)) \<le> rat_of_int \<lfloor>a\<rfloor>"
    by (simp only: of_int_le_iff)
  also have "\<dots> \<le> a" by simp
  finally have "(2::rat) ^ nat (bitlen \<lfloor>a\<rfloor> - 1) \<le> a" by simp
  with True b1 show ?thesis
    by (simp add: ilog2_def power_int_def)
next
  case False
  with assms have "1 < 1 / a" by simp
  then have n2: "2 \<le> \<lceil>1 / a\<rceil>" by linarith
  define m where "m = \<lceil>1 / a\<rceil> - 1"
  have pos: "0 < m" using n2 by (simp add: m_def)
  have "m < 2 ^ nat (bitlen m)" using bitlen_bounds [OF pos] by simp
  then have "\<lceil>1 / a\<rceil> \<le> 2 ^ nat (bitlen m)" by (simp add: m_def)
  then have "1 / a \<le> rat_of_int (2 ^ nat (bitlen m))"
    by (simp only: ceiling_le_iff)
  then have "1 / a \<le> 2 ^ nat (bitlen m)" by simp
  then have "1 / 2 ^ nat (bitlen m) \<le> a"
    using assms by (simp add: field_simps)
  moreover have "(2::rat) powi (- bitlen m) = 1 / 2 ^ nat (bitlen m)"
    by (rule powi_neg [OF bitlen_nonneg])
  moreover have "ilog2 a = - bitlen m"
    using False by (simp add: ilog2_def m_def)
  ultimately show ?thesis by simp
qed

lemma ilog2_upper:
  assumes "0 < a"
  shows "a < 2 powi (ilog2 a + 1)"
proof (cases "1 \<le> a")
  case True
  then have pos: "0 < \<lfloor>a\<rfloor>" by simp
  then have b1: "1 \<le> bitlen \<lfloor>a\<rfloor>" by (auto simp: bitlen_alt_def)
  have "\<lfloor>a\<rfloor> + 1 \<le> 2 ^ nat (bitlen \<lfloor>a\<rfloor>)"
    using bitlen_bounds [OF pos] by simp
  then have "rat_of_int (\<lfloor>a\<rfloor> + 1) \<le> rat_of_int (2 ^ nat (bitlen \<lfloor>a\<rfloor>))"
    by (simp only: of_int_le_iff)
  moreover have "a < rat_of_int (\<lfloor>a\<rfloor> + 1)" by linarith
  ultimately have "a < 2 ^ nat (bitlen \<lfloor>a\<rfloor>)" by simp
  with True b1 show ?thesis
    by (simp add: ilog2_def power_int_def)
next
  case False
  with assms have "1 < 1 / a" by simp
  then have n2: "2 \<le> \<lceil>1 / a\<rceil>" by linarith
  define m where "m = \<lceil>1 / a\<rceil> - 1"
  have pos: "0 < m" using n2 by (simp add: m_def)
  then have b1: "1 \<le> bitlen m" by (auto simp: bitlen_alt_def)
  have "2 ^ nat (bitlen m - 1) \<le> m" using bitlen_bounds [OF pos] by simp
  then have "(2::rat) ^ nat (bitlen m - 1) \<le> rat_of_int m"
    by simp
  moreover have "rat_of_int m < 1 / a" unfolding m_def by linarith
  ultimately have "2 ^ nat (bitlen m - 1) < 1 / a" by (rule le_less_trans)
  then have "a < 1 / 2 ^ nat (bitlen m - 1)"
    using assms by (simp add: field_simps)
  moreover have "(2::rat) powi (- bitlen m + 1) = 1 / 2 ^ nat (bitlen m - 1)"
    using powi_neg [of "bitlen m - 1"] b1 by simp
  moreover have "ilog2 a = - bitlen m"
    using False by (simp add: ilog2_def m_def)
  ultimately show ?thesis by simp
qed

lemma round_half_even_of_int [simp]: "round_half_even (of_int k) = k"
  by (simp add: round_half_even_def)

lemma round32_of_int:
  assumes "\<bar>n\<bar> < 2 ^ 24"
  shows "round32 (of_int n) = of_int n"
proof (cases "n = 0")
  case True
  then show ?thesis by simp
next
  case False
  define a where "a = \<bar>rat_of_int n\<bar>"
  have apos: "0 < a" using False by (simp add: a_def)
  have "2 powi (ilog2 a) \<le> a" by (rule ilog2_lower [OF apos])
  also have "a < 2 ^ 24"
  proof -
    have "rat_of_int \<bar>n\<bar> < rat_of_int (2 ^ 24)" using assms by (simp only: of_int_less_iff)
    then show ?thesis by (simp add: a_def)
  qed
  finally have "(2::rat) powi (ilog2 a) < 2 powi 24" by simp
  then have e: "ilog2 a < 24"
    by (rule power_int_le_imp_less_exp [rotated]) simp_all
  define k where "k = nat (23 - ilog2 a)"
  have u: "(2::rat) powi (ilog2 a - 23) = 1 / 2 ^ k"
    using powi_neg [of "23 - ilog2 a"] e by (simp add: k_def)
  have "a * 2 ^ k = rat_of_int (\<bar>n\<bar> * 2 ^ k)"
    by (simp add: a_def)
  then have r: "round_half_even (a * 2 ^ k) = \<bar>n\<bar> * 2 ^ k"
    by (simp only: round_half_even_of_int)
  have "round32 (of_int n) = sgn (rat_of_int n) * a"
    using False by (simp add: round32_def Let_def a_def [symmetric] u r)
  also have "\<dots> = of_int n" by (simp add: a_def sgn_mult_abs)
  finally show ?thesis .
qed

section \<open>Properties of interpolateColor\<close>

lemma uint8_small: "\<bar>uint (c :: 8 word)\<bar> < 2 ^ 24"
  using uint_lt2p [of c] by simp

lemma uint8_diff_small: "\<bar>uint (c2 :: 8 word) - uint (c1 :: 8 word)\<bar> < 2 ^ 24"
proof -
  have "uint c1 < 256" "uint c2 < 256"
    using uint_lt2p [of c1] uint_lt2p [of c2] by simp_all
  moreover have "0 \<le> uint c1" "0 \<le> uint c2" by simp_all
  ultimately have "\<bar>uint c2 - uint c1\<bar> < 256" by linarith
  then show ?thesis by simp
qed

lemma f2i_of_int: "int32 n \<Longrightarrow> f2i (of_int n) = n"
  by (simp add: f2i_def)

lemma int32_small: "\<bar>n\<bar> < 2 ^ 24 \<Longrightarrow> int32 n"
  by (auto simp add: int32_def)

lemma channel_arith_zero:
  assumes "\<bar>n1\<bar> < 2 ^ 24"
  shows "f2i (fadd (i2f n1) (fmul (i2f d) 0)) = n1"
  by (simp add: fadd_def fmul_def i2f_def round32_of_int [OF assms]
      f2i_of_int [OF int32_small [OF assms]])

lemma channel_arith_one:
  assumes "\<bar>n1\<bar> < 2 ^ 24" "\<bar>n2 - n1\<bar> < 2 ^ 24" "\<bar>n2\<bar> < 2 ^ 24"
  shows "f2i (fadd (i2f n1) (fmul (i2f (n2 - n1)) 1)) = n2"
proof -
  have "fadd (i2f n1) (fmul (i2f (n2 - n1)) 1) = round32 (of_int n1 + of_int (n2 - n1))"
    by (simp only: fadd_def fmul_def i2f_def mult_1_right round32_of_int [OF assms(1)]
        round32_of_int [OF assms(2)])
  also have "\<dots> = round32 (of_int n2)" by simp
  also have "\<dots> = of_int n2" by (rule round32_of_int [OF assms(3)])
  finally show ?thesis by (simp add: f2i_of_int [OF int32_small [OF assms(3)]])
qed

lemma channel_zero: "channel c1 c2 0 = c1"
  by (simp only: channel_def f2u8_def channel_arith_zero [OF uint8_small] word_of_int_uint)

lemma channel_one: "channel c1 c2 1 = c2"
  by (simp only: channel_def f2u8_def
      channel_arith_one [OF uint8_small uint8_diff_small uint8_small] word_of_int_uint)

lemma byte_mask: "(0xFF :: 32 word) = mask 8" by (simp add: mask_eq_exp_minus_1)

lemma byte_round: "ucast (ucast (w AND mask 8 :: 32 word) :: 8 word) = (w AND mask 8 :: 32 word)"
  by (rule bit_word_eqI) (auto simp add: bit_simps)

lemma pack_unpack:
  "push_bit 24 (ucast (ucast (drop_bit 24 c AND 0xFF) :: 8 word))
     OR push_bit 16 (ucast (ucast (drop_bit 16 c AND 0xFF) :: 8 word))
     OR push_bit 8 (ucast (ucast (drop_bit 8 c AND 0xFF) :: 8 word))
     OR ucast (ucast (c AND 0xFF) :: 8 word) = (c :: 32 word)"
  unfolding byte_mask byte_round
proof (rule bit_word_eqI)
  fix n
  assume "n < LENGTH(32)"
  then have n: "n < 32" by simp
  consider "n < 8" | "8 \<le> n" "n < 16" | "16 \<le> n" "n < 24" | "24 \<le> n"
    by linarith
  then show "bit (push_bit 24 (drop_bit 24 c AND mask 8) OR push_bit 16 (drop_bit 16 c AND mask 8)
       OR push_bit 8 (drop_bit 8 c AND mask 8) OR (c AND mask 8)) n = bit c n"
  proof cases
    case 1
    then show ?thesis by (simp add: bit_simps)
  next
    case 2
    then have "n - 8 < 8" "8 + (n - 8) = n" by simp_all
    with 2 n show ?thesis by (auto simp add: bit_simps)
  next
    case 3
    then have "n - 16 < 8" "16 + (n - 16) = n" "\<not> n - 8 < 8" by simp_all
    with 3 n show ?thesis by (auto simp add: bit_simps)
  next
    case 4
    then have "n - 24 < 8" "24 + (n - 24) = n" "\<not> n - 8 < 8" "\<not> n - 16 < 8" using n by simp_all
    with 4 n show ?thesis by (auto simp add: bit_simps)
  qed
qed

text \<open>
  C5. For all packed colours \<open>A\<close> and \<open>B\<close>, \<open>interpolateColor A B 0.0\<close> is \<open>A\<close> and
  \<open>interpolateColor A B 1.0\<close> is \<open>B\<close>, bit for bit: the products and sums are small
  integers, which single precision holds exactly, and the truncation returns them.
\<close>

theorem interpolateColor_endpoints:
  "interpolateColor A B 0 = A \<and> interpolateColor A B 1 = B"
  by (simp add: interpolateColor_def Let_def channel_zero channel_one pack_unpack)

section \<open>Properties of isCollinear\<close>

text \<open>
  The 32-bit computation is the exact signed area modulo \<open>2 ^ 32\<close>, so \<open>isCollinear\<close>
  answers whether \<open>2 ^ 32\<close> divides the area. It agrees with the exact test as long as
  the area has magnitude below \<open>2 ^ 32\<close>.
\<close>

lemma isCollinear_iff_dvd: "isCollinear v0 v1 v2 \<longleftrightarrow> 2 ^ 32 dvd signedArea v0 v1 v2"
proof -
  have "isCollinear v0 v1 v2 \<longleftrightarrow> (word_of_int (signedArea v0 v1 v2) :: 32 word) = 0"
    by (simp add: isCollinear_def signedArea_def Let_def)
  also have "\<dots> \<longleftrightarrow> 2 ^ 32 dvd signedArea v0 v1 v2"
    by (simp add: word_of_int_eq_0_iff)
  finally show ?thesis .
qed

lemma isCollinear_exact_small:
  assumes "\<bar>signedArea v0 v1 v2\<bar> < 2 ^ 32"
  shows "isCollinear v0 v1 v2 \<longleftrightarrow> signedArea v0 v1 v2 = 0"
proof
  assume "isCollinear v0 v1 v2"
  then have "2 ^ 32 dvd signedArea v0 v1 v2" by (simp only: isCollinear_iff_dvd)
  then have "(2 ^ 32 :: int) dvd \<bar>signedArea v0 v1 v2\<bar>" by simp
  then show "signedArea v0 v1 v2 = 0"
    using assms zdvd_not_zless [of "\<bar>signedArea v0 v1 v2\<bar>" "2 ^ 32"] by fastforce
next
  assume "signedArea v0 v1 v2 = 0"
  then show "isCollinear v0 v1 v2" by (simp add: isCollinear_iff_dvd)
qed

text \<open>
  C6. The claim is that \<open>isCollinear\<close> is true exactly when the signed area, in exact
  integer arithmetic, is zero. For the vertices \<open>(0, 0)\<close>, \<open>(65536, 0)\<close>, \<open>(0, 65536)\<close> the
  exact area is \<open>2 ^ 32\<close>, the 32-bit product is 0, and \<open>isCollinear\<close> is true.
\<close>

theorem isCollinear_overflow:
  "isCollinear \<lparr>vx = 0, vy = 0, vcolor = RED\<rparr> \<lparr>vx = 65536, vy = 0, vcolor = GREEN\<rparr>
       \<lparr>vx = 0, vy = 65536, vcolor = BLUE\<rparr>
   \<and> signedArea \<lparr>vx = 0, vy = 0, vcolor = RED\<rparr> \<lparr>vx = 65536, vy = 0, vcolor = GREEN\<rparr>
       \<lparr>vx = 0, vy = 65536, vcolor = BLUE\<rparr> = 4294967296"
  by (simp add: isCollinear_def signedArea_def)

section \<open>Properties of the 32-bit integers and conversions\<close>

text \<open>
  \<open>wrap32\<close> leaves a value of the 32-bit range as it is. No \<^verbatim>\<open>float\<close> has the value
  \<^verbatim>\<open>INT_MAX\<close> (the nearest ones are \<open>2147483520\<close> and \<open>2147483648\<close>), so the conversion
  of a \<^verbatim>\<open>float\<close> to \<^verbatim>\<open>int\<close> is always below \<^verbatim>\<open>INT_MAX\<close> (\<open>f2i_round32_less\<close>).
\<close>

lemma wrap32_id: "int32 z \<Longrightarrow> wrap32 z = z"
  by (simp add: wrap32_def int32_def)

lemma wrap32_int32: "int32 (wrap32 z)"
proof -
  have "0 \<le> (z + 2147483648) mod 4294967296" "(z + 2147483648) mod 4294967296 < 4294967296"
    by simp_all
  then show ?thesis unfolding wrap32_def int32_def by linarith
qed

lemma f2i_int32: "int32 (f2i a)"
  by (simp add: f2i_def Let_def int32_def)

lemma round_half_even_bounds: "\<lfloor>q\<rfloor> \<le> round_half_even q \<and> round_half_even q \<le> \<lfloor>q\<rfloor> + 1"
  by (simp add: round_half_even_def Let_def)

lemma round32_neg: "round32 (- z) = - round32 z"
  by (simp add: round32_def Let_def)

lemma powi_split: "(2::rat) powi e = 2 powi (e - 23) * 8388608"
proof -
  have "(2::rat) powi ((e - 23) + 23) = 2 powi (e - 23) * 2 powi 23"
    by (rule power_int_add) simp
  then show ?thesis by simp
qed

lemma powi_split': "(2::rat) powi (e + 1) = 2 powi (e - 23) * 16777216"
proof -
  have eq: "e + 1 = (e - 23) + 24" by simp
  have "(2::rat) powi ((e - 23) + 24) = 2 powi (e - 23) * 2 powi 24"
    by (rule power_int_add) simp
  then show ?thesis unfolding eq by simp
qed

lemma round32_pos_form:
  assumes "0 < z"
  shows "\<exists>m. round32 z = of_int m * 2 powi (ilog2 z - 23) \<and> 8388608 \<le> m \<and> m \<le> 16777216"
proof -
  define u :: rat where "u = 2 powi (ilog2 z - 23)"
  have upos: "0 < u" by (simp add: u_def)
  have "u * 8388608 \<le> z" using ilog2_lower [OF assms] powi_split [of "ilog2 z"] by (simp add: u_def)
  then have lo: "rat_of_int 8388608 \<le> z / u" using upos by (simp add: field_simps)
  have "z < u * 16777216" using ilog2_upper [OF assms] powi_split' [of "ilog2 z"] by (simp add: u_def)
  then have hi: "z / u < rat_of_int 16777216" using upos by (simp add: field_simps)
  have flo: "8388608 \<le> \<lfloor>z / u\<rfloor>" using lo by (simp only: le_floor_iff)
  have fhi: "\<lfloor>z / u\<rfloor> < 16777216" using hi by (simp only: floor_less_iff)
  define m where "m = round_half_even (z / u)"
  have "\<lfloor>z / u\<rfloor> \<le> m" "m \<le> \<lfloor>z / u\<rfloor> + 1"
    using round_half_even_bounds [of "z / u"] by (simp_all only: m_def)
  with flo fhi have "8388608 \<le> m" "m \<le> 16777216" by linarith+
  moreover have "round32 z = of_int m * u"
    using assms by (simp add: round32_def Let_def u_def m_def)
  ultimately show ?thesis unfolding u_def by blast
qed

lemma round32_nonneg: "0 \<le> z \<Longrightarrow> 0 \<le> round32 z"
proof (cases "z = 0")
  case True
  then show ?thesis by simp
next
  case False
  assume "0 \<le> z"
  with False have "0 < z" by simp
  from round32_pos_form [OF this] obtain m
    where "round32 z = of_int m * 2 powi (ilog2 z - 23)" "8388608 \<le> m" by blast
  then show ?thesis by simp
qed

lemma round32_not_int_max:
  "\<not> (2147483647 \<le> round32 z \<and> round32 z < 2147483648)"
proof
  assume a: "2147483647 \<le> round32 z \<and> round32 z < 2147483648"
  have "0 < z"
  proof (rule ccontr)
    assume "\<not> 0 < z"
    then have "0 \<le> - z" by simp
    then have "0 \<le> round32 (- z)" by (rule round32_nonneg)
    then show False using a by (simp add: round32_neg)
  qed
  from round32_pos_form [OF this] obtain m
    where v: "round32 z = of_int m * 2 powi (ilog2 z - 23)"
      and m: "8388608 \<le> m" "m \<le> 16777216"
    by blast
  define e where "e = ilog2 z"
  have upos: "(0::rat) < 2 powi (e - 23)" by simp
  consider "e \<le> 29" | "e = 30" | "31 \<le> e" by linarith
  then show False
  proof cases
    case 1
    have "rat_of_int m \<le> 16777216" using m(2) by simp
    then have "round32 z \<le> 16777216 * 2 powi (e - 23)"
      unfolding v e_def [symmetric] using upos by (intro mult_right_mono) simp_all
    also have "\<dots> = 2 powi (e + 1)" using powi_split' [of e] by simp
    also have "\<dots> \<le> 2 powi 30" using 1 by (intro power_int_increasing) simp_all
    finally show False using a by simp
  next
    case 2
    then have "round32 z = rat_of_int (m * 128)" by (simp add: v e_def)
    with a have "rat_of_int 2147483647 \<le> rat_of_int (m * 128)"
      "rat_of_int (m * 128) < rat_of_int 2147483648" by simp_all
    then have "2147483647 \<le> m * 128" "m * 128 < 2147483648"
      by (simp_all only: of_int_le_iff of_int_less_iff)
    then show False by presburger
  next
    case 3
    have "(2::rat) powi 31 \<le> 2 powi e" using 3 by (intro power_int_increasing) simp_all
    also have "\<dots> = 8388608 * 2 powi (e - 23)" using powi_split [of e] by simp
    also have "\<dots> \<le> of_int m * 2 powi (e - 23)"
      using m(1) upos by (intro mult_right_mono) simp_all
    finally show False using a by (simp add: v e_def)
  qed
qed

lemma f2i_round32_less: "f2i (round32 z) < 2147483647"
proof (rule ccontr)
  assume "\<not> f2i (round32 z) < 2147483647"
  then have n: "f2i (round32 z) = 2147483647"
    using f2i_int32 [of "round32 z"] by (simp add: int32_def)
  have pos: "0 \<le> round32 z"
  proof (rule ccontr)
    assume neg: "\<not> 0 \<le> round32 z"
    then have "\<lceil>round32 z\<rceil> \<le> 0" by (simp add: ceiling_le_iff)
    then have "f2i (round32 z) \<le> 0"
      using neg by (simp add: f2i_def Let_def)
    with n show False by simp
  qed
  have fl: "\<lfloor>round32 z\<rfloor> = 2147483647"
    using n pos by (simp add: f2i_def Let_def split: if_splits)
  from fl have "2147483647 \<le> round32 z \<and> round32 z < 2147483648"
    by (simp add: floor_eq_iff)
  then show False using round32_not_int_max by blast
qed


section \<open>The fill as a sequence of setPixel calls\<close>

text \<open>
  \<open>x_right\<close> is below \<^verbatim>\<open>INT_MAX\<close>, so the span loop always exits: the calls of a
  scanline are \<open>rowCalls\<close>. Each loop of the fill returns exactly when the loop that
  collects its calls does, with the screen on which the calls have been performed. The
  scanline loop exits when \<open>v2.y\<close> is below \<^verbatim>\<open>INT_MAX\<close>, and never when \<open>v2.y\<close> is
  \<^verbatim>\<open>INT_MAX\<close>.
\<close>

lemma scanlineEdges_range:
  assumes "scanlineEdges v0 v1 v2 y = Some (x_left, x_right, color_left, color_right)"
  shows "int32 x_left \<and> int32 x_right \<and> x_right < 2147483647"
  using assms
  by (auto simp add: scanlineEdges_def Let_def fadd_def f2i_int32 f2i_round32_less
      min_def max_def split: if_splits)

lemma applyCalls_append: "applyCalls screen (cs @ ds) = applyCalls (applyCalls screen cs) ds"
  by (induction screen cs rule: applyCalls.induct) simp_all

lemma spanCalls_closed:
  assumes "x_right < 2147483647" "- 2147483648 \<le> x"
  shows "spanCalls y x_left x_right color_left color_right x
           = Some (map (\<lambda>x'. (x', y, spanColor x_left x_right color_left color_right x'))
               [x..x_right])"
  using assms(2)
proof (induction "nat (x_right + 1 - x)" arbitrary: x)
  case 0
  then have "\<not> x \<le> x_right" by simp
  then show ?case by (subst spanCalls.simps) simp
next
  case (Suc n)
  then have le: "x \<le> x_right" and n: "n = nat (x_right + 1 - (x + 1))" by simp_all
  have w: "wrap32 (x + 1) = x + 1"
    using le assms(1) Suc.prems by (intro wrap32_id) (simp add: int32_def)
  have "- 2147483648 \<le> x + 1" using Suc.prems by simp
  from Suc.hyps(1) [OF n this] show ?case
    using le by (subst spanCalls.simps) (simp add: w upto_rec1 [of x x_right])
qed

lemma spanCalls_imp_fillSpan:
  assumes "spanCalls y x_left x_right color_left color_right x = Some cs"
  shows "fillSpan screen y x_left x_right color_left color_right x = Some (applyCalls screen cs)"
  using assms
proof (induction arbitrary: screen rule: spanCalls.raw_induct [rotated 1, consumes 1, case_names 1])
  case (1 f y x_left x_right color_left color_right x cs)
  show ?case
  proof (cases "x \<le> x_right")
    case True
    with "1.hyps" obtain rest
      where rest: "f y x_left x_right color_left color_right (wrap32 (x + 1)) = Some rest"
        and cs: "cs = (x, y, spanColor x_left x_right color_left color_right x) # rest"
      by (auto simp add: bind_eq_Some_conv)
    from "1.IH" [OF rest] show ?thesis
      unfolding cs using True by (subst fillSpan.simps) simp
  next
    case False
    with "1.hyps" have "cs = []" by simp
    then show ?thesis using False by (subst fillSpan.simps) simp
  qed
qed

lemma fillSpan_imp_spanCalls:
  assumes "fillSpan screen y x_left x_right color_left color_right x = Some screen'"
  shows "spanCalls y x_left x_right color_left color_right x \<noteq> None"
  using assms
proof (induction rule: fillSpan.raw_induct [rotated 1, consumes 1, case_names 1])
  case (1 f screen y x_left x_right color_left color_right x screen')
  show ?case
  proof (cases "x \<le> x_right")
    case True
    with "1.hyps" have "f (setPixel screen x y (spanColor x_left x_right color_left color_right x))
        y x_left x_right color_left color_right (wrap32 (x + 1)) = Some screen'"
      by simp
    from "1.IH" [OF this] show ?thesis
      using True by (subst spanCalls.simps) auto
  next
    case False
    then show ?thesis by (subst spanCalls.simps) simp
  qed
qed

lemma fillSpan_applyCalls:
  "fillSpan screen y x_left x_right color_left color_right x
     = map_option (applyCalls screen) (spanCalls y x_left x_right color_left color_right x)"
proof (cases "spanCalls y x_left x_right color_left color_right x")
  case None
  then have "fillSpan screen y x_left x_right color_left color_right x = None"
    using fillSpan_imp_spanCalls [of screen y x_left x_right color_left color_right x]
    by (cases "fillSpan screen y x_left x_right color_left color_right x") auto
  with None show ?thesis by simp
next
  case (Some cs)
  then show ?thesis by (simp add: spanCalls_imp_fillSpan)
qed

lemma scanlineCalls_rowCalls: "scanlineCalls v0 v1 v2 y = Some (rowCalls v0 v1 v2 y)"
proof (cases "scanlineEdges v0 v1 v2 y")
  case None
  then show ?thesis by (simp add: scanlineCalls_def rowCalls_def)
next
  case (Some e)
  obtain x_left x_right color_left color_right
    where e: "e = (x_left, x_right, color_left, color_right)" by (cases e)
  have r: "int32 x_left \<and> int32 x_right \<and> x_right < 2147483647"
    using scanlineEdges_range Some e by blast
  then have "- 2147483648 \<le> x_left" by (simp add: int32_def)
  with r show ?thesis
    by (simp add: scanlineCalls_def rowCalls_def Some e spanCalls_closed)
qed

lemma scanline_applyCalls:
  "scanline screen v0 v1 v2 y = Some (applyCalls screen (rowCalls v0 v1 v2 y))"
proof -
  have "scanline screen v0 v1 v2 y = map_option (applyCalls screen) (scanlineCalls v0 v1 v2 y)"
    by (simp add: scanline_def scanlineCalls_def fillSpan_applyCalls split: option.split)
  then show ?thesis by (simp add: scanlineCalls_rowCalls)
qed

lemma rowsCalls_imp_fillRows:
  assumes "rowsCalls v0 v1 v2 y = Some cs"
  shows "fillRows screen v0 v1 v2 y = Some (applyCalls screen cs)"
  using assms
proof (induction arbitrary: screen rule: rowsCalls.raw_induct [rotated 1, consumes 1, case_names 1])
  case (1 f v0 v1 v2 y cs)
  show ?case
  proof (cases "y \<le> vy v2")
    case True
    with "1.hyps" obtain rest
      where rest: "f v0 v1 v2 (wrap32 (y + 1)) = Some rest"
        and cs: "cs = rowCalls v0 v1 v2 y @ rest"
      by (auto simp add: bind_eq_Some_conv scanlineCalls_rowCalls)
    from "1.IH" [OF rest] show ?thesis
      unfolding cs using True
      by (subst fillRows.simps) (simp add: scanline_applyCalls applyCalls_append)
  next
    case False
    with "1.hyps" have "cs = []" by simp
    then show ?thesis using False by (subst fillRows.simps) simp
  qed
qed

lemma fillRows_imp_rowsCalls:
  assumes "fillRows screen v0 v1 v2 y = Some screen'"
  shows "rowsCalls v0 v1 v2 y \<noteq> None"
  using assms
proof (induction rule: fillRows.raw_induct [rotated 1, consumes 1, case_names 1])
  case (1 f screen v0 v1 v2 y screen')
  show ?case
  proof (cases "y \<le> vy v2")
    case True
    with "1.hyps" have "f (applyCalls screen (rowCalls v0 v1 v2 y)) v0 v1 v2 (wrap32 (y + 1))
        = Some screen'"
      by (simp add: scanline_applyCalls)
    from "1.IH" [OF this] show ?thesis
      using True by (subst rowsCalls.simps) (auto simp add: scanlineCalls_rowCalls)
  next
    case False
    then show ?thesis by (subst rowsCalls.simps) simp
  qed
qed

lemma fillRows_applyCalls:
  "fillRows screen v0 v1 v2 y = map_option (applyCalls screen) (rowsCalls v0 v1 v2 y)"
proof (cases "rowsCalls v0 v1 v2 y")
  case None
  then have "fillRows screen v0 v1 v2 y = None"
    using fillRows_imp_rowsCalls [of screen v0 v1 v2 y]
    by (cases "fillRows screen v0 v1 v2 y") auto
  with None show ?thesis by simp
next
  case (Some cs)
  then show ?thesis by (simp add: rowsCalls_imp_fillRows)
qed

lemma fillTriangle_applyCalls:
  "fillTriangle screen a b c = map_option (applyCalls screen) (fillTriangleCalls a b c)"
  by (simp add: fillTriangle_def fillTriangleCalls_def fillRows_applyCalls split: prod.split)

lemma rowsCalls_closed:
  assumes "vy v2 < 2147483647" "- 2147483648 \<le> y"
  shows "rowsCalls v0 v1 v2 y = Some (concat (map (rowCalls v0 v1 v2) [y..vy v2]))"
  using assms(2)
proof (induction "nat (vy v2 + 1 - y)" arbitrary: y)
  case 0
  then have "\<not> y \<le> vy v2" by simp
  then show ?case by (subst rowsCalls.simps) simp
next
  case (Suc n)
  then have le: "y \<le> vy v2" and n: "n = nat (vy v2 + 1 - (y + 1))" by simp_all
  have w: "wrap32 (y + 1) = y + 1"
    using le assms(1) Suc.prems by (intro wrap32_id) (simp add: int32_def)
  have "- 2147483648 \<le> y + 1" using Suc.prems by simp
  from Suc.hyps(1) [OF n this] show ?case
    using le
    by (subst rowsCalls.simps) (simp add: w upto_rec1 [of y "vy v2"] scanlineCalls_rowCalls)
qed



lemma applyCalls_width [simp]: "width (applyCalls screen cs) = width screen"
  by (induction screen cs rule: applyCalls.induct) simp_all

lemma applyCalls_height [simp]: "height (applyCalls screen cs) = height screen"
  by (induction screen cs rule: applyCalls.induct) simp_all

lemma applyCalls_length [simp]: "length (pixels (applyCalls screen cs)) = length (pixels screen)"
  by (induction screen cs rule: applyCalls.induct) simp_all

lemma setPixel_nth:
  "i < length (pixels screen) \<Longrightarrow>
   pixels (setPixel screen x y c) ! i =
     (if \<not> (x < 0 \<or> x \<ge> width screen \<or> y < 0 \<or> y \<ge> height screen)
           \<and> nat (y * width screen + x) = i then c else pixels screen ! i)"
  by (auto simp add: setPixel_def Let_def)

lemma applyCalls_nth:
  "i < length (pixels screen) \<Longrightarrow>
   pixels (applyCalls screen cs) ! i
     = overlay (width screen) (height screen) cs i (pixels screen ! i)"
proof (induction screen cs rule: applyCalls.induct)
  case (1 screen)
  then show ?case by simp
next
  case (2 screen x y c calls)
  then show ?case by (simp add: setPixel_nth)
qed

lemma setPixel_more: "setPixel screen x y c = screen\<lparr>pixels := pixels (setPixel screen x y c)\<rparr>"
  by (simp add: setPixel_def Let_def)

lemma applyCalls_more: "applyCalls screen cs = screen\<lparr>pixels := pixels (applyCalls screen cs)\<rparr>"
proof (induction screen cs rule: applyCalls.induct)
  case (1 screen)
  then show ?case by simp
next
  case (2 screen x y c calls)
  have "applyCalls screen ((x, y, c) # calls)
      = (setPixel screen x y c)\<lparr>pixels := pixels (applyCalls (setPixel screen x y c) calls)\<rparr>"
    using 2 by simp
  also have "\<dots> = screen\<lparr>pixels := pixels (applyCalls (setPixel screen x y c) calls)\<rparr>"
    by (subst setPixel_more) simp
  finally show ?case by simp
qed

lemma overlay_const_or_id:
  "(\<forall>v. overlay w h cs i v = v) \<or> (\<exists>c. \<forall>v. overlay w h cs i v = c)"
proof (induction cs)
  case Nil
  then show ?case by simp
next
  case (Cons call cs)
  obtain x y c where call: "call = (x, y, c)" by (cases call)
  from Cons show ?case
    unfolding call by (cases "\<not> (x < 0 \<or> x \<ge> w \<or> y < 0 \<or> y \<ge> h) \<and> nat (y * w + x) = i") auto
qed

lemma overlay_idem: "overlay w h cs i (overlay w h cs i v) = overlay w h cs i v"
  using overlay_const_or_id [of w h cs i] by metis

lemma applyCalls_idem: "applyCalls (applyCalls screen cs) cs = applyCalls screen cs"
proof -
  have "pixels (applyCalls (applyCalls screen cs) cs) = pixels (applyCalls screen cs)"
    by (rule nth_equalityI) (simp_all add: applyCalls_nth overlay_idem)
  moreover have "applyCalls (applyCalls screen cs) cs
      = screen\<lparr>pixels := pixels (applyCalls (applyCalls screen cs) cs)\<rparr>"
    by (subst applyCalls_more, subst (2) applyCalls_more) simp
  ultimately show ?thesis
    by (subst (2) applyCalls_more) simp
qed

lemma sortByY_extent:
  assumes "sortByY a b c = (v0, v1, v2)"
  shows "vy v0 = min (vy a) (min (vy b) (vy c)) \<and> vy v2 = max (vy a) (max (vy b) (vy c))"
  using assms by (auto simp add: sortByY_def Let_def split: if_splits)

lemma index_row:
  assumes "0 \<le> x" "x < w" "0 \<le> x'" "x' < w" "0 \<le> y" "0 \<le> y'"
    and "nat (y * w + x) = nat (y' * w + x')"
  shows "y = y'"
proof -
  have "0 \<le> y * w + x" "0 \<le> y' * w + x'" using assms by simp_all
  with assms have eq: "y * w + x = y' * w + x'" by linarith
  have "(y * w + x) div w = y" "(y' * w + x') div w = y'"
    using assms by simp_all
  with eq show ?thesis by metis
qed

lemma setPixel_nth_other:
  "x < 0 \<or> x \<ge> width screen \<or> y < 0 \<or> y \<ge> height screen \<or> nat (y * width screen + x) \<noteq> i
   \<Longrightarrow> pixels (setPixel screen x y c) ! i = pixels screen ! i"
  by (auto simp add: setPixel_def Let_def)

lemma applyCalls_nth_other:
  assumes "\<And>x y c. (x, y, c) \<in> set cs \<Longrightarrow>
     x < 0 \<or> x \<ge> width screen \<or> y < 0 \<or> y \<ge> height screen \<or> nat (y * width screen + x) \<noteq> i"
  shows "pixels (applyCalls screen cs) ! i = pixels screen ! i"
  using assms
proof (induction screen cs rule: applyCalls.induct)
  case (1 screen)
  then show ?case by simp
next
  case (2 screen x y c calls)
  have "pixels (applyCalls (setPixel screen x y c) calls) ! i = pixels (setPixel screen x y c) ! i"
  proof (rule "2.IH")
    fix xa ya ca
    assume "(xa, ya, ca) \<in> set calls"
    then have "(xa, ya, ca) \<in> set ((x, y, c) # calls)" by simp
    from "2.prems" [OF this]
    show "xa < 0 \<or> width (setPixel screen x y c) \<le> xa \<or> ya < 0
        \<or> height (setPixel screen x y c) \<le> ya
        \<or> nat (ya * width (setPixel screen x y c) + xa) \<noteq> i"
      by simp
  qed
  also have "\<dots> = pixels screen ! i"
    using "2.prems" [of x y c] by (intro setPixel_nth_other) simp
  finally show ?case by simp
qed

lemma applyCalls_other_rows:
  assumes "0 \<le> x" "x < width screen" "0 \<le> y"
    and "\<And>x' y' c'. (x', y', c') \<in> set cs \<Longrightarrow> y' \<noteq> y"
  shows "getPixel (applyCalls screen cs) x y = getPixel screen x y"
proof -
  have "pixels (applyCalls screen cs) ! nat (y * width screen + x)
      = pixels screen ! nat (y * width screen + x)"
  proof (rule applyCalls_nth_other)
    fix x' y' c'
    assume "(x', y', c') \<in> set cs"
    then have "y' \<noteq> y" by (rule assms(4))
    then show "x' < 0 \<or> x' \<ge> width screen \<or> y' < 0 \<or> y' \<ge> height screen
        \<or> nat (y' * width screen + x') \<noteq> nat (y * width screen + x)"
      using index_row [of x' "width screen" x y' y] assms(1-3) by fastforce
  qed
  then show ?thesis by (simp add: getPixel_def)
qed

lemma sortByY_flat:
  assumes "vy a = vy b" "vy b = vy c" "sortByY a b c = (v0, v1, v2)"
  shows "vy v0 = vy v2"
  using sortByY_extent [OF assms(3)] assms(1,2) by simp


section \<open>Rows, degenerate triangles and spans\<close>

lemma rowCalls_rows: "(x', y', c') \<in> set (rowCalls v0 v1 v2 y) \<Longrightarrow> y' = y"
  by (auto simp add: rowCalls_def split: option.splits)



lemma rows_member:
  assumes "(x', y', c') \<in> set (concat (map (rowCalls v0 v1 v2) [lo..hi]))"
  shows "lo \<le> y' \<and> y' \<le> hi \<and> (x', y', c') \<in> set (rowCalls v0 v1 v2 y')"
  using assms by (auto dest: rowCalls_rows)

lemma fillTriangleCalls_closed:
  assumes "sortByY a b c = (v0, v1, v2)"
    and "int32 (vy a)" "int32 (vy b)" "int32 (vy c)"
    and "max (vy a) (max (vy b) (vy c)) < 2147483647"
  shows "fillTriangleCalls a b c
     = Some (if vy v0 = vy v2 then [] else concat (map (rowCalls v0 v1 v2) [vy v0..vy v2]))"
proof -
  have e: "vy v0 = min (vy a) (min (vy b) (vy c))" "vy v2 = max (vy a) (max (vy b) (vy c))"
    using sortByY_extent [OF assms(1)] by simp_all
  have "vy v2 < 2147483647" using e assms(5) by simp
  moreover have "- 2147483648 \<le> vy v0"
    using e assms(2-4) by (simp add: int32_def min_def)
  ultimately show ?thesis
    using assms(1) by (simp add: fillTriangleCalls_def rowsCalls_closed)
qed


text \<open>
  C8. \<open>fillTriangle\<close> is idempotent: for every screen and every vertex triple, a second
  fill with the same vertices, on the screen that the first fill returned, returns that
  same screen (and when the first fill does not return, both sides of the equation are
  \<open>None\<close>). The calls are the same both times and each one overwrites its entry. When
  the three \<open>y\<close> coordinates are in the 32-bit range and below \<^verbatim>\<open>INT_MAX\<close>, both fills
  return.
\<close>

theorem fillTriangle_idempotent:
  "Option.bind (fillTriangle screen a b c) (\<lambda>screen'. fillTriangle screen' a b c)
     = fillTriangle screen a b c
   \<and> (int32 (vy a) \<and> int32 (vy b) \<and> int32 (vy c)
        \<and> max (vy a) (max (vy b) (vy c)) < 2147483647
      \<longrightarrow> (\<exists>screen'. fillTriangle screen a b c = Some screen'
             \<and> fillTriangle screen' a b c = Some screen'))"
proof (intro conjI impI)
  show "Option.bind (fillTriangle screen a b c) (\<lambda>screen'. fillTriangle screen' a b c)
     = fillTriangle screen a b c"
    by (cases "fillTriangleCalls a b c") (simp_all add: fillTriangle_applyCalls applyCalls_idem)
next
  assume h: "int32 (vy a) \<and> int32 (vy b) \<and> int32 (vy c)
        \<and> max (vy a) (max (vy b) (vy c)) < 2147483647"
  obtain v0 v1 v2 where s: "sortByY a b c = (v0, v1, v2)" by (cases "sortByY a b c")
  from fillTriangleCalls_closed [OF s] h obtain cs where "fillTriangleCalls a b c = Some cs"
    by blast
  then show "\<exists>screen'. fillTriangle screen a b c = Some screen'
             \<and> fillTriangle screen' a b c = Some screen'"
    by (simp add: fillTriangle_applyCalls applyCalls_idem)
qed

theorem fillTriangle_idempotent_witness:
  "int32 (vy \<lparr>vx = 1, vy = 0, vcolor = RED\<rparr>) \<and> int32 (vy \<lparr>vx = 0, vy = 2, vcolor = GREEN\<rparr>)
   \<and> int32 (vy \<lparr>vx = 3, vy = 3, vcolor = BLUE\<rparr>)
   \<and> max (vy \<lparr>vx = 1, vy = 0, vcolor = RED\<rparr>)
       (max (vy \<lparr>vx = 0, vy = 2, vcolor = GREEN\<rparr>) (vy \<lparr>vx = 3, vy = 3, vcolor = BLUE\<rparr>)) < 2147483647
   \<and> (\<exists>screen'. fillTriangle (drawScreen 4 5) \<lparr>vx = 1, vy = 0, vcolor = RED\<rparr>
          \<lparr>vx = 0, vy = 2, vcolor = GREEN\<rparr> \<lparr>vx = 3, vy = 3, vcolor = BLUE\<rparr> = Some screen'
        \<and> fillTriangle screen' \<lparr>vx = 1, vy = 0, vcolor = RED\<rparr>
          \<lparr>vx = 0, vy = 2, vcolor = GREEN\<rparr> \<lparr>vx = 3, vy = 3, vcolor = BLUE\<rparr> = Some screen')"
  using fillTriangle_idempotent [of "drawScreen 4 5" "\<lparr>vx = 1, vy = 0, vcolor = RED\<rparr>"
      "\<lparr>vx = 0, vy = 2, vcolor = GREEN\<rparr>" "\<lparr>vx = 3, vy = 3, vcolor = BLUE\<rparr>"]
  by (simp add: int32_def)





lemma fillRows_wraps:
  assumes "vy v2 = 2147483647"
  shows "fillRows screen v0 v1 v2 2147483647
     = Option.bind (scanline screen v0 v1 v2 2147483647)
         (\<lambda>screen'. fillRows screen' v0 v1 v2 (- 2147483648))"
  by (subst fillRows.simps) (simp add: assms wrap32_def)










text \<open>
  C2. For every vertex triple whose three \<open>y\<close> coordinates are equal (so that
  \<open>y0 = y2\<close> after the sort, \<open>sortByY_flat\<close>), \<open>fillTriangle\<close> returns, issues no
  \<^verbatim>\<open>setPixel\<close> call and returns the screen it was given. For every vertex triple of
  which \<open>isCollinear\<close> holds, the caller does not store the triangle, and drawing what it
  stored returns the screen as it was.
\<close>

theorem fillTriangle_degenerate:
  "(vy a = vy b \<and> vy b = vy c
      \<longrightarrow> fillTriangleCalls a b c = Some [] \<and> fillTriangle screen a b c = Some screen)
   \<and> (isCollinear a b c
      \<longrightarrow> submitTriangle triangles [a, b, c] = triangles
        \<and> drawAll screen (submitTriangle [] [a, b, c]) = Some screen)"
proof (intro conjI impI)
  assume flat: "vy a = vy b \<and> vy b = vy c"
  obtain v0 v1 v2 where s: "sortByY a b c = (v0, v1, v2)" by (cases "sortByY a b c")
  have "vy v0 = vy v2" using sortByY_flat [OF _ _ s] flat by simp
  with s show "fillTriangleCalls a b c = Some []" "fillTriangle screen a b c = Some screen"
    by (simp_all add: fillTriangleCalls_def fillTriangle_def)
next
  assume "isCollinear a b c"
  then show "submitTriangle triangles [a, b, c] = triangles"
    "drawAll screen (submitTriangle [] [a, b, c]) = Some screen"
    by (simp_all add: submitTriangle_def)
qed

theorem fillTriangle_degenerate_witness:
  "vy \<lparr>vx = 0, vy = 5, vcolor = RED\<rparr> = vy \<lparr>vx = 3, vy = 5, vcolor = GREEN\<rparr>
   \<and> vy \<lparr>vx = 3, vy = 5, vcolor = GREEN\<rparr> = vy \<lparr>vx = 7, vy = 5, vcolor = BLUE\<rparr>
   \<and> isCollinear \<lparr>vx = 0, vy = 5, vcolor = RED\<rparr> \<lparr>vx = 3, vy = 5, vcolor = GREEN\<rparr>
         \<lparr>vx = 7, vy = 5, vcolor = BLUE\<rparr>
   \<and> fillTriangleCalls \<lparr>vx = 0, vy = 5, vcolor = RED\<rparr> \<lparr>vx = 3, vy = 5, vcolor = GREEN\<rparr>
         \<lparr>vx = 7, vy = 5, vcolor = BLUE\<rparr> = Some []
   \<and> fillTriangle (drawScreen 8 8) \<lparr>vx = 0, vy = 5, vcolor = RED\<rparr> \<lparr>vx = 3, vy = 5, vcolor = GREEN\<rparr>
         \<lparr>vx = 7, vy = 5, vcolor = BLUE\<rparr> = Some (drawScreen 8 8)
   \<and> drawAll (drawScreen 8 8)
         (submitTriangle [] [\<lparr>vx = 0, vy = 5, vcolor = RED\<rparr>, \<lparr>vx = 3, vy = 5, vcolor = GREEN\<rparr>,
            \<lparr>vx = 7, vy = 5, vcolor = BLUE\<rparr>]) = Some (drawScreen 8 8)"
proof -
  have "isCollinear \<lparr>vx = 0, vy = 5, vcolor = RED\<rparr> \<lparr>vx = 3, vy = 5, vcolor = GREEN\<rparr>
      \<lparr>vx = 7, vy = 5, vcolor = BLUE\<rparr>"
    by (simp add: isCollinear_def)
  then show ?thesis
    using fillTriangle_degenerate [of "\<lparr>vx = 0, vy = 5, vcolor = RED\<rparr>" "\<lparr>vx = 3, vy = 5, vcolor = GREEN\<rparr>"
        "\<lparr>vx = 7, vy = 5, vcolor = BLUE\<rparr>" "drawScreen 8 8" "[]"]
    by simp
qed

section \<open>The default triangle on the fresh screen\<close>

text \<open>
  The three vertex colours have alpha \<open>0xFF\<close>, and so has every colour interpolated
  from them: the alpha channel is \<open>255 + 0 * t\<close>.
\<close>

lemma low_byte_pack:
  "(push_bit 24 (r :: 32 word) OR push_bit 16 (g :: 32 word) OR push_bit 8 (b :: 32 word)
      OR ucast (a :: 8 word)) AND 0xFF = (ucast a :: 32 word)"
  unfolding byte_mask
  by (rule bit_word_eqI) (auto simp add: bit_simps dest: bit_imp_le_length)

lemma channel_full: "channel 0xFF 0xFF t = 0xFF"
proof -
  have "fmul (i2f (uint (0xFF :: 8 word) - uint (0xFF :: 8 word))) t = 0"
    by (simp add: fmul_def i2f_def)
  moreover have "i2f (uint (0xFF :: 8 word)) = of_int 255"
    using round32_of_int [of 255] by (simp add: i2f_def)
  ultimately have "fadd (i2f (uint (0xFF :: 8 word))) (fmul (i2f (uint (0xFF :: 8 word) - uint (0xFF :: 8 word))) t)
      = of_int 255"
    using round32_of_int [of 255] by (simp add: fadd_def)
  moreover have "f2i (of_int 255) = 255"
    by (rule f2i_of_int) (simp add: int32_def)
  ultimately show ?thesis
    by (simp only: channel_def f2u8_def) simp
qed

lemma interpolateColor_alpha:
  assumes "color0 AND 0xFF = 0xFF" "color1 AND 0xFF = 0xFF"
  shows "interpolateColor color0 color1 t AND 0xFF = 0xFF"
  by (simp only: interpolateColor_def Let_def low_byte_pack assms) (simp add: channel_full)


lemma spanColor_alpha:
  assumes "color_left AND 0xFF = 0xFF" "color_right AND 0xFF = 0xFF"
  shows "spanColor x_left x_right color_left color_right x AND 0xFF = 0xFF"
  using assms by (simp add: spanColor_def Let_def interpolateColor_alpha)

lemma scanlineEdges_alpha:
  assumes "vcolor v0 AND 0xFF = 0xFF" "vcolor v1 AND 0xFF = 0xFF" "vcolor v2 AND 0xFF = 0xFF"
    and "scanlineEdges v0 v1 v2 y = Some (x_left, x_right, color_left, color_right)"
  shows "color_left AND 0xFF = 0xFF \<and> color_right AND 0xFF = 0xFF"
  using assms
  by (auto simp add: scanlineEdges_def Let_def interpolateColor_alpha split: if_splits)


lemma rowCalls_alpha:
  assumes "vcolor v0 AND 0xFF = 0xFF" "vcolor v1 AND 0xFF = 0xFF" "vcolor v2 AND 0xFF = 0xFF"
    and "(x', y', c') \<in> set (rowCalls v0 v1 v2 y)"
  shows "c' AND 0xFF = 0xFF"
proof (cases "scanlineEdges v0 v1 v2 y")
  case None
  with assms(4) show ?thesis by (simp add: rowCalls_def)
next
  case (Some e)
  obtain x_left x_right color_left color_right
    where e: "e = (x_left, x_right, color_left, color_right)" by (cases e)
  have "c' = spanColor x_left x_right color_left color_right x'"
    using assms(4) Some e by (auto simp add: rowCalls_def)
  then show ?thesis
    using scanlineEdges_alpha [OF assms(1-3) Some [unfolded e]] by (simp add: spanColor_alpha)
qed

lemma default_sorted: "sortByY defaultV0 defaultV1 defaultV2 = (defaultV0, defaultV1, defaultV2)"
  by (simp add: sortByY_def defaultV0_def defaultV1_def defaultV2_def)

lemma default_alpha:
  "vcolor defaultV0 AND 0xFF = 0xFF" "vcolor defaultV1 AND 0xFF = 0xFF"
  "vcolor defaultV2 AND 0xFF = 0xFF"
  by (simp_all add: defaultV0_def defaultV1_def defaultV2_def RED_def GREEN_def BLUE_def)

lemma withinColors_default: "withinColors RED GREEN BLUE c \<longleftrightarrow> c AND 0xFF = 0xFF"
proof -
  have le: "chan k c \<le> 0xFF" for k
    unfolding chan_def by (rule word_and_le1)
  have mins: "min (chan 0 RED) (min (chan 0 GREEN) (chan 0 BLUE)) = 0xFF"
    "min (chan 1 RED) (min (chan 1 GREEN) (chan 1 BLUE)) = 0"
    "min (chan 2 RED) (min (chan 2 GREEN) (chan 2 BLUE)) = 0"
    "min (chan 3 RED) (min (chan 3 GREEN) (chan 3 BLUE)) = 0"
    by (simp_all add: chan_def RED_def GREEN_def BLUE_def)
  have maxs: "max (chan 0 RED) (max (chan 0 GREEN) (chan 0 BLUE)) = 0xFF"
    "max (chan 1 RED) (max (chan 1 GREEN) (chan 1 BLUE)) = 0xFF"
    "max (chan 2 RED) (max (chan 2 GREEN) (chan 2 BLUE)) = 0xFF"
    "max (chan 3 RED) (max (chan 3 GREEN) (chan 3 BLUE)) = 0xFF"
    by (simp_all add: chan_def RED_def GREEN_def BLUE_def)
  have "withinColors RED GREEN BLUE c \<longleftrightarrow> 0xFF \<le> chan 0 c"
    unfolding withinColors_def list.pred_inject mins maxs by (simp add: le)
  also have "\<dots> \<longleftrightarrow> chan 0 c = 0xFF"
    using le [of 0] by auto
  also have "\<dots> \<longleftrightarrow> c AND 0xFF = 0xFF" by (simp add: chan_def)
  finally show ?thesis .
qed


lemma default_calls:
  "fillTriangleCalls defaultV0 defaultV1 defaultV2
     = Some (concat (map (rowCalls defaultV0 defaultV1 defaultV2) [100..400]))"
  using fillTriangleCalls_closed [OF default_sorted]
  by (simp add: defaultV0_def defaultV1_def defaultV2_def int32_def del: upto_rec_numeral)

lemma default_row_100: "rowCalls defaultV0 defaultV1 defaultV2 100 = [(250, 100, RED)]"
proof -
  have "scanlineEdges defaultV0 defaultV1 defaultV2 100 = Some (250, 250, RED, RED)"
    by code_simp
  then show ?thesis by (simp add: rowCalls_def spanColor_def)
qed

lemma default_row_400: "rowCalls defaultV0 defaultV1 defaultV2 400 = []"
  by (simp add: rowCalls_def scanlineEdges_def defaultV0_def defaultV1_def defaultV2_def)

lemma default_calls_unfold:
  "concat (map (rowCalls defaultV0 defaultV1 defaultV2) [100..400])
     = (250, 100, RED) # concat (map (rowCalls defaultV0 defaultV1 defaultV2) [101..400])"
proof -
  have "[100..400] = 100 # [100 + 1..400::int]" by (rule upto_rec1) simp
  then have "[100..400] = 100 # [101..400::int]" by (simp del: upto_rec_numeral)
  then show ?thesis by (simp add: default_row_100 del: upto_rec_numeral)
qed

lemma default_no_call_on_row_400:
  assumes "(x', y', c') \<in> set (concat (map (rowCalls defaultV0 defaultV1 defaultV2) [100..400]))"
  shows "y' \<noteq> 400"
proof
  assume "y' = 400"
  with rows_member [OF assms] have "(x', 400, c') \<in> set (rowCalls defaultV0 defaultV1 defaultV2 400)"
    by simp
  then show False by (simp add: default_row_400)
qed

lemma default_bottom_row:
  assumes "0 \<le> x" "x < 500"
  shows "pixelAfter (fillTriangle (drawScreen 500 500) defaultV0 defaultV1 defaultV2) x 400
           = Some 0x000000FF"
proof -
  let ?cs = "concat (map (rowCalls defaultV0 defaultV1 defaultV2) [100..400])"
  have "getPixel (applyCalls (drawScreen 500 500) ?cs) x 400 = getPixel (drawScreen 500 500) x 400"
  proof (rule applyCalls_other_rows)
    fix x' y' c'
    assume "(x', y', c') \<in> set ?cs"
    then show "y' \<noteq> 400" by (rule default_no_call_on_row_400)
  qed (use assms in \<open>simp_all add: drawScreen_def\<close>)
  also have "\<dots> = 0x000000FF"
    using assms by (simp add: getPixel_def drawScreen_def)
  finally show ?thesis
    by (simp add: pixelAfter_def fillTriangle_applyCalls default_calls del: upto_rec_numeral)
qed

lemma default_top_vertex:
  "pixelAfter (fillTriangle (drawScreen 500 500) defaultV0 defaultV1 defaultV2) 250 100 = Some RED"
proof -
  let ?s = "setPixel (drawScreen 500 500) 250 100 RED"
  let ?rest = "concat (map (rowCalls defaultV0 defaultV1 defaultV2) [101..400])"
  have "getPixel (applyCalls ?s ?rest) 250 100 = getPixel ?s 250 100"
  proof (rule applyCalls_other_rows)
    fix x' y' c'
    assume "(x', y', c') \<in> set ?rest"
    from rows_member [OF this] have "101 \<le> y'" by simp
    then show "y' \<noteq> 100" by simp
  qed (simp_all add: drawScreen_def)
  also have "\<dots> = RED"
    by (simp add: getPixel_def setPixel_def drawScreen_def)
  finally show ?thesis
    by (simp add: pixelAfter_def fillTriangle_applyCalls default_calls default_calls_unfold
        del: upto_rec_numeral)
qed

text \<open>
  C1, as the code has it. \<open>fillTriangle\<close> on the fresh 500 by 500 screen with
  \<open>(250, 100, RED)\<close>, \<open>(100, 400, GREEN)\<close>, \<open>(400, 400, BLUE)\<close> returns, and in the screen
  it returns: the pixel at \<open>(250, 100)\<close> is \<open>RED\<close>; row 400 belongs to the lower half,
  which has height zero and is skipped (line 366), so no call is on row 400 and the
  pixels at \<open>(100, 400)\<close> and \<open>(400, 400)\<close> keep the opaque black of the fresh screen; and
  the colour of every \<^verbatim>\<open>setPixel\<close> call of the fill has each of its four channels
  between the smallest and the largest value of that channel among \<open>RED\<close>, \<open>GREEN\<close>
  and \<open>BLUE\<close>.
\<close>

theorem default_triangle_fill:
  "pixelAfter (fillTriangle (drawScreen 500 500) defaultV0 defaultV1 defaultV2) 250 100 = Some RED
   \<and> pixelAfter (fillTriangle (drawScreen 500 500) defaultV0 defaultV1 defaultV2) 100 400
       = Some 0x000000FF
   \<and> pixelAfter (fillTriangle (drawScreen 500 500) defaultV0 defaultV1 defaultV2) 400 400
       = Some 0x000000FF
   \<and> (\<exists>calls. fillTriangleCalls defaultV0 defaultV1 defaultV2 = Some calls
        \<and> (\<forall>(x, y, c) \<in> set calls. y \<noteq> 400 \<and> withinColors RED GREEN BLUE c))"
proof (intro conjI)
  show "pixelAfter (fillTriangle (drawScreen 500 500) defaultV0 defaultV1 defaultV2) 250 100
      = Some RED"
    by (rule default_top_vertex)
  show "pixelAfter (fillTriangle (drawScreen 500 500) defaultV0 defaultV1 defaultV2) 100 400
      = Some 0x000000FF"
    by (rule default_bottom_row) simp_all
  show "pixelAfter (fillTriangle (drawScreen 500 500) defaultV0 defaultV1 defaultV2) 400 400
      = Some 0x000000FF"
    by (rule default_bottom_row) simp_all
  let ?cs = "concat (map (rowCalls defaultV0 defaultV1 defaultV2) [100..400])"
  have "\<forall>(x, y, c) \<in> set ?cs. y \<noteq> 400 \<and> withinColors RED GREEN BLUE c"
  proof (clarify, intro conjI)
    fix x y c
    assume m: "(x, y, c) \<in> set ?cs"
    then show "y \<noteq> 400" by (rule default_no_call_on_row_400)
    from rows_member [OF m] have "(x, y, c) \<in> set (rowCalls defaultV0 defaultV1 defaultV2 y)"
      by simp
    then show "withinColors RED GREEN BLUE c"
      using rowCalls_alpha [OF default_alpha] by (simp add: withinColors_default)
  qed
  with default_calls
  have "fillTriangleCalls defaultV0 defaultV1 defaultV2 = Some ?cs
      \<and> (\<forall>(x, y, c) \<in> set ?cs. y \<noteq> 400 \<and> withinColors RED GREEN BLUE c)"
    by (rule conjI)
  then show "\<exists>calls. fillTriangleCalls defaultV0 defaultV1 defaultV2 = Some calls
        \<and> (\<forall>(x, y, c) \<in> set calls. y \<noteq> 400 \<and> withinColors RED GREEN BLUE c)"
    by (rule exI)
qed

theorem default_triangle_fill_witness:
  "\<exists>calls. fillTriangleCalls defaultV0 defaultV1 defaultV2 = Some calls
     \<and> (250, 100, RED) \<in> set calls \<and> withinColors RED GREEN BLUE RED"
proof -
  from default_triangle_fill [THEN conjunct2, THEN conjunct2, THEN conjunct2]
  obtain calls where c: "fillTriangleCalls defaultV0 defaultV1 defaultV2 = Some calls"
    and a: "\<forall>(x, y, c) \<in> set calls. y \<noteq> 400 \<and> withinColors RED GREEN BLUE c"
    by (elim exE conjE)
  from c have "calls = concat (map (rowCalls defaultV0 defaultV1 defaultV2) [100..400])"
    unfolding default_calls by (simp del: upto_rec_numeral)
  then have m: "(250, 100, RED) \<in> set calls"
    unfolding default_calls_unfold by (simp del: upto_rec_numeral)
  from a m have "case (250::int, 100::int, RED) of (x, y, c) \<Rightarrow> y \<noteq> 400 \<and> withinColors RED GREEN BLUE c"
    by (rule bspec)
  then have "withinColors RED GREEN BLUE RED" by simp
  with c m show ?thesis by (intro exI conjI)
qed

text \<open>
  C1, as it is stated, asks for \<open>GREEN\<close> at \<open>(100, 400)\<close> and \<open>BLUE\<close> at \<open>(400, 400)\<close>.
  Both pixels are black after the fill.
\<close>

theorem default_triangle_bottom_vertices_counterexample:
  "\<not> (pixelAfter (fillTriangle (drawScreen 500 500) defaultV0 defaultV1 defaultV2) 250 100 = Some RED
      \<and> pixelAfter (fillTriangle (drawScreen 500 500) defaultV0 defaultV1 defaultV2) 100 400 = Some GREEN
      \<and> pixelAfter (fillTriangle (drawScreen 500 500) defaultV0 defaultV1 defaultV2) 400 400 = Some BLUE)"
  by (simp add: default_bottom_row GREEN_def)

section \<open>Properties of the line rasterizer\<close>









lemma bresenhamHighLoop_never_returns:
  assumes "y1 = 2147483647" "y \<le> 2147483647"
  shows "bresenhamHighLoop y1 xi dx dy color0 color1 totalSteps pts y x D currentStep = None"
proof -
  have "False"
    if "bresenhamHighLoop y1 xi dx dy color0 color1 totalSteps pts y x D currentStep = Some r"
      "y1 = 2147483647" "y \<le> 2147483647" for r
    using that
  proof (induction rule: bresenhamHighLoop.raw_induct [rotated 1, consumes 1, case_names 1])
    case (1 f y1 xi dx dy color0 color1 totalSteps pts y' x' D currentStep r)
    then obtain pts2 x2 D2
      where "f y1 xi dx dy color0 color1 totalSteps pts2 (wrap32 (y' + 1)) x2 D2
          (wrap32 (currentStep + 1)) = Some r"
      by (auto simp add: Let_def split: if_splits)
    moreover have "wrap32 (y' + 1) \<le> 2147483647"
      using wrap32_int32 [of "y' + 1"] by (simp add: int32_def)
    ultimately show False using "1.IH" "1.prems" by blast
  qed
  with assms show ?thesis
    by (cases "bresenhamHighLoop y1 xi dx dy color0 color1 totalSteps pts y x D currentStep") auto
qed





end
